theory Spec2Isabelle
  imports Main "HOL-Library.Word" "HOL-Library.Sublist"
begin

unbundle bit_operations_syntax

section \<open>Strings of the host language\<close>

text \<open>
  A JavaScript string is a sequence of 16-bit code units; a chunk read from the response
  body is a sequence of bytes.  String literals of the source are ASCII, so they are
  written as Isabelle strings and embedded with \<open>lit\<close>.
\<close>

type_synonym code_unit = "16 word"
type_synonym jsstring = "code_unit list"
type_synonym bytes = "char list"

definition lit :: "string \<Rightarrow> jsstring" where
  "lit s = map of_char s"

definition LF :: code_unit where
  "LF = 10"

definition CR :: code_unit where
  "CR = 13"

text \<open>\<open>s.indexOf(c)\<close> for a one-character needle; the source's \<open>-1\<close> is \<open>None\<close>.\<close>

fun indexOf :: "jsstring \<Rightarrow> code_unit \<Rightarrow> nat option" where
  "indexOf [] c = None"
| "indexOf (x # xs) c = (if x = c then Some 0 else map_option Suc (indexOf xs c))"

definition startsWith :: "jsstring \<Rightarrow> jsstring \<Rightarrow> bool" where
  "startsWith s p = (take (length p) s = p)"

text \<open>\<open>s.endsWith(c)\<close> for a one-character suffix.\<close>

definition endsWith :: "jsstring \<Rightarrow> code_unit \<Rightarrow> bool" where
  "endsWith s c = (s \<noteq> [] \<and> last s = c)"

text \<open>
  The code units \<open>String.prototype.trim\<close> removes: ECMAScript's WhiteSpace and
  LineTerminator productions.
\<close>

definition is_ws :: "code_unit \<Rightarrow> bool" where
  "is_ws c = (c = 0x09 \<or> c = 0x0A \<or> c = 0x0B \<or> c = 0x0C \<or> c = 0x0D \<or> c = 0x20
     \<or> c = 0xA0 \<or> c = 0x1680 \<or> (0x2000 \<le> c \<and> c \<le> 0x200A) \<or> c = 0x2028 \<or> c = 0x2029
     \<or> c = 0x202F \<or> c = 0x205F \<or> c = 0x3000 \<or> c = 0xFEFF)"

definition trim :: "jsstring \<Rightarrow> jsstring" where
  "trim s = rev (dropWhile is_ws (rev (dropWhile is_ws s)))"

text \<open>\<open>if (line.endsWith("\r")) line = line.slice(0, -1)\<close>, as both loops do it.\<close>

definition strip_cr :: "jsstring \<Rightarrow> jsstring" where
  "strip_cr line = (if endsWith line CR then butlast line else line)"

text \<open>\<open>s.split(c)\<close> for a one-character separator: never the empty array.\<close>

fun split :: "jsstring \<Rightarrow> code_unit \<Rightarrow> jsstring list" where
  "split [] c = [[]]"
| "split (x # xs) c =
     (if x = c then [] # split xs c
      else (case split xs c of [] \<Rightarrow> [[x]] | piece # pieces \<Rightarrow> (x # piece) # pieces))"

section \<open>Values produced by JSON.parse\<close>

text \<open>
  A JavaScript number is an IEEE double: a signed zero, a finite non-zero dyadic rational
  (sign, magnitude, binary exponent), an infinity or NaN.  Only its truthiness matters to
  the decoder.
\<close>

datatype js_number = Finite bool nat int | Infinite bool | NaN

datatype jsval =
    JUndefined
  | JNull
  | JBool bool
  | JNum js_number
  | JStr jsstring
  | JArr "jsval list"
  | JObj "(jsstring \<times> jsval) list"

fun num_truthy :: "js_number \<Rightarrow> bool" where
  "num_truthy (Finite sign magnitude exponent) = (magnitude \<noteq> 0)"
| "num_truthy (Infinite sign) = True"
| "num_truthy NaN = False"

text \<open>ToBoolean, as \<open>if (content)\<close> and \<open>a || b\<close> apply it.\<close>

fun truthy :: "jsval \<Rightarrow> bool" where
  "truthy JUndefined = False"
| "truthy JNull = False"
| "truthy (JBool b) = b"
| "truthy (JNum n) = num_truthy n"
| "truthy (JStr s) = (s \<noteq> [])"
| "truthy (JArr xs) = True"
| "truthy (JObj kvs) = True"

fun nullish :: "jsval \<Rightarrow> bool" where
  "nullish JUndefined = True"
| "nullish JNull = True"
| "nullish v = False"

text \<open>
  \<open>v.name\<close> for a value that is neither null nor undefined and a name that no
  prototype defines (\<open>choices\<close>, \<open>delta\<close>, \<open>content\<close>, \<open>error\<close>): an own property
  of an object, undefined on everything else.
\<close>

fun property :: "jsval \<Rightarrow> jsstring \<Rightarrow> jsval" where
  "property (JObj kvs) name = (case map_of kvs name of None \<Rightarrow> JUndefined | Some v \<Rightarrow> v)"
| "property v name = JUndefined"

text \<open>\<open>v[0]\<close> for a value that is neither null nor undefined.\<close>

fun elem0 :: "jsval \<Rightarrow> jsval" where
  "elem0 (JArr xs) = (case xs of [] \<Rightarrow> JUndefined | x # rest \<Rightarrow> x)"
| "elem0 (JStr s) = (case s of [] \<Rightarrow> JUndefined | c # rest \<Rightarrow> JStr [c])"
| "elem0 (JObj kvs) = (case map_of kvs (lit ''0'') of None \<Rightarrow> JUndefined | Some v \<Rightarrow> v)"
| "elem0 v = JUndefined"

text \<open>Optional chaining \<open>v?.f\<close>: undefined when \<open>v\<close> is null or undefined.\<close>

definition opt_chain :: "jsval \<Rightarrow> (jsval \<Rightarrow> jsval) \<Rightarrow> jsval" where
  "opt_chain v f = (if nullish v then JUndefined else f v)"

text \<open>
  \<open>parsed.choices?.[0]?.delta?.content\<close>.  The first access is not optional: on null (or
  undefined) it throws a TypeError, which is \<open>None\<close> here.
\<close>

definition delta_content :: "jsval \<Rightarrow> jsval option" where
  "delta_content parsed =
     (if nullish parsed then None
      else Some (opt_chain (opt_chain (opt_chain (property parsed (lit ''choices'')) elem0)
                   (\<lambda>v. property v (lit ''delta''))) (\<lambda>v. property v (lit ''content''))))"

text \<open>
  What the body of the \<open>try\<close> block does with one payload.  \<open>JSON.parse\<close> is a built-in
  of the platform, so it is a parameter \<open>parse\<close> of the model: \<open>None\<close> when it throws a
  SyntaxError.  The callbacks are taken not to throw.
\<close>

datatype attempt = Threw | Emitted jsval | Silent

definition try_payload :: "(jsstring \<Rightarrow> jsval option) \<Rightarrow> jsstring \<Rightarrow> attempt" where
  "try_payload parse jsonStr =
     (case parse jsonStr of
        None \<Rightarrow> Threw
      | Some parsed \<Rightarrow>
          (case delta_content parsed of
             None \<Rightarrow> Threw
           | Some content \<Rightarrow> if truthy content then Emitted content else Silent))"

section \<open>The inner scan loop\<close>

text \<open>
  The \<open>while ((newlineIndex = textBuffer.indexOf("\n")) !== -1)\<close> loop of streamChat.
  Its result is the calls of \<open>onDelta\<close> it made, in order, the buffer it leaves and the
  flag \<open>streamDone\<close>.
\<close>

record scan_result =
  emitted :: "jsval list"
  textBuffer :: jsstring
  streamDone :: bool

function scan :: "(jsstring \<Rightarrow> jsval option) \<Rightarrow> jsstring \<Rightarrow> scan_result" where
  "scan parse buf =
     (case indexOf buf LF of
        None \<Rightarrow> \<lparr>emitted = [], textBuffer = buf, streamDone = False\<rparr>
      | Some newlineIndex \<Rightarrow>
          (let line0 = take newlineIndex buf;
               rest = drop (newlineIndex + 1) buf;
               line = strip_cr line0
           in if startsWith line (lit '':'') \<or> trim line = [] then scan parse rest
              else if \<not> startsWith line (lit ''data: '') then scan parse rest
              else (let jsonStr = trim (drop 6 line)
                    in if jsonStr = lit ''[DONE]''
                       then \<lparr>emitted = [], textBuffer = rest, streamDone = True\<rparr>
                       else (case try_payload parse jsonStr of
                               Emitted content \<Rightarrow>
                                 (let r = scan parse rest
                                  in r\<lparr>emitted := content # emitted r\<rparr>)
                             | Silent \<Rightarrow> scan parse rest
                             | Threw \<Rightarrow>
                                 \<lparr>emitted = [], textBuffer = line @ LF # rest,
                                  streamDone = False\<rparr>))))"
  by pat_completeness auto

section \<open>The text decoder\<close>

text \<open>
  \<open>new TextDecoder()\<close> is the platform's UTF-8 decoder in replacement mode, with the
  byte order mark stripped.  It is modelled after the Encoding Standard: a handler that
  takes one byte at a time and carries the partial code point; \<open>decode(value, {stream:
  true})\<close> runs the handler over the bytes of the chunk and never flushes, so the state
  survives from one chunk to the next.
\<close>

record utf8_decoder =
  code_point :: nat
  bytes_seen :: nat
  bytes_needed :: nat
  lower_boundary :: nat
  upper_boundary :: nat
  bom_seen :: bool

definition new_TextDecoder :: utf8_decoder where
  "new_TextDecoder =
     \<lparr>code_point = 0, bytes_seen = 0, bytes_needed = 0, lower_boundary = 0x80,
      upper_boundary = 0xBF, bom_seen = False\<rparr>"

text \<open>The handler when no code point is under way; the result lists the code points emitted.\<close>

definition lead_byte :: "utf8_decoder \<Rightarrow> nat \<Rightarrow> utf8_decoder \<times> nat list" where
  "lead_byte d b =
     (if b \<le> 0x7F then (d, [b])
      else if 0xC2 \<le> b \<and> b \<le> 0xDF
        then (d\<lparr>bytes_needed := 1, code_point := b AND 0x1F\<rparr>, [])
      else if 0xE0 \<le> b \<and> b \<le> 0xEF
        then (d\<lparr>lower_boundary := (if b = 0xE0 then 0xA0 else lower_boundary d),
                upper_boundary := (if b = 0xED then 0x9F else upper_boundary d),
                bytes_needed := 2, code_point := b AND 0xF\<rparr>, [])
      else if 0xF0 \<le> b \<and> b \<le> 0xF4
        then (d\<lparr>lower_boundary := (if b = 0xF0 then 0x90 else lower_boundary d),
                upper_boundary := (if b = 0xF4 then 0x8F else upper_boundary d),
                bytes_needed := 3, code_point := b AND 0x7\<rparr>, [])
      else (d, [0xFFFD]))"

definition utf8_handler :: "utf8_decoder \<Rightarrow> nat \<Rightarrow> utf8_decoder \<times> nat list" where
  "utf8_handler d b =
     (if bytes_needed d = 0 then lead_byte d b
      else if b < lower_boundary d \<or> upper_boundary d < b
        then (let (d', out) =
                    lead_byte (d\<lparr>code_point := 0, bytes_needed := 0, bytes_seen := 0,
                                 lower_boundary := 0x80, upper_boundary := 0xBF\<rparr>) b
              in (d', 0xFFFD # out))
      else (let d1 = d\<lparr>lower_boundary := 0x80, upper_boundary := 0xBF,
                        code_point := push_bit 6 (code_point d) OR (b AND 0x3F),
                        bytes_seen := bytes_seen d + 1\<rparr>
            in if bytes_seen d1 \<noteq> bytes_needed d1 then (d1, [])
               else (d1\<lparr>code_point := 0, bytes_needed := 0, bytes_seen := 0\<rparr>,
                     [code_point d1])))"

text \<open>A code point as UTF-16 code units.\<close>

definition utf16 :: "nat \<Rightarrow> jsstring" where
  "utf16 cp =
     (if cp < 0x10000 then [of_nat cp]
      else [of_nat (0xD800 + drop_bit 10 (cp - 0x10000)),
            of_nat (0xDC00 + ((cp - 0x10000) AND 0x3FF))])"

text \<open>Serialising the emitted code points: the first one is dropped when it is U+FEFF.\<close>

fun serialize :: "utf8_decoder \<Rightarrow> nat list \<Rightarrow> utf8_decoder \<times> jsstring" where
  "serialize d [] = (d, [])"
| "serialize d (cp # cps) =
     (if bom_seen d then (let (d', s) = serialize d cps in (d', utf16 cp @ s))
      else (let (d', s) = serialize (d\<lparr>bom_seen := True\<rparr>) cps
            in (d', (if cp = 0xFEFF then [] else utf16 cp) @ s)))"

text \<open>\<open>decoder.decode(value, { stream: true })\<close>: the new decoder state and the text.\<close>

fun decode :: "utf8_decoder \<Rightarrow> bytes \<Rightarrow> utf8_decoder \<times> jsstring" where
  "decode d [] = (d, [])"
| "decode d (b # bs) =
     (let (d1, cps) = utf8_handler d (of_char b);
          (d2, s) = serialize d1 cps;
          (d3, s') = decode d2 bs
      in (d3, s @ s'))"

section \<open>The read loop\<close>

text \<open>
  One \<open>await reader.read()\<close> yields a chunk or rejects; a source is the list of what the
  successive reads yield, and a read past its end reports \<open>done\<close>.
\<close>

datatype read_result = Chunk bytes | ReadError

type_synonym source = "read_result list"

datatype loop_exit = Exhausted | SentinelSeen | ReadFailed

record loop_result =
  delivered :: "jsval list"
  pending :: jsstring
  exit :: loop_exit
  unread :: source

text \<open>
  The \<open>while (!streamDone)\<close> loop: how it ends, the \<open>onDelta\<close> calls it made, the buffer
  it leaves and what was never read.  A rejected read leaves the loop for the \<open>catch\<close>
  clause of streamChat.
\<close>

fun read_loop ::
  "(jsstring \<Rightarrow> jsval option) \<Rightarrow> utf8_decoder \<Rightarrow> jsstring \<Rightarrow> source \<Rightarrow> loop_result" where
  "read_loop parse decoder buf [] =
     \<lparr>delivered = [], pending = buf, exit = Exhausted, unread = []\<rparr>"
| "read_loop parse decoder buf (ReadError # later) =
     \<lparr>delivered = [], pending = buf, exit = ReadFailed, unread = later\<rparr>"
| "read_loop parse decoder buf (Chunk v # later) =
     (let (decoder', decoded) = decode decoder v;
          s = scan parse (buf @ decoded)
      in if streamDone s
         then \<lparr>delivered = emitted s, pending = textBuffer s, exit = SentinelSeen,
               unread = later\<rparr>
         else (let r = read_loop parse decoder' (textBuffer s) later
               in r\<lparr>delivered := emitted s @ delivered r\<rparr>))"

section \<open>The final flush\<close>

text \<open>One round of the \<open>for (let raw of textBuffer.split("\n"))\<close> loop: its \<open>onDelta\<close> calls.\<close>

definition flush_line :: "(jsstring \<Rightarrow> jsval option) \<Rightarrow> jsstring \<Rightarrow> jsval list" where
  "flush_line parse raw0 =
     (if raw0 = [] then []
      else (let raw = strip_cr raw0
            in if startsWith raw (lit '':'') \<or> trim raw = [] then []
               else if \<not> startsWith raw (lit ''data: '') then []
               else (let jsonStr = trim (drop 6 raw)
                     in if jsonStr = lit ''[DONE]'' then []
                        else (case try_payload parse jsonStr of
                                Emitted content \<Rightarrow> [content]
                              | Silent \<Rightarrow> []
                              | Threw \<Rightarrow> []))))"

definition final_flush :: "(jsstring \<Rightarrow> jsval option) \<Rightarrow> jsstring \<Rightarrow> jsval list" where
  "final_flush parse buf =
     (if trim buf \<noteq> [] then concat (map (flush_line parse) (split buf LF)) else [])"

section \<open>streamChat\<close>

text \<open>
  What \<open>await fetch(...)\<close> gives: it rejects, or resolves to a response with a status,
  what \<open>resp.json()\<close> resolves to (\<open>None\<close> when it rejects) and a body stream (\<open>None\<close>
  when \<open>resp.body\<close> is null).  \<open>resp.ok\<close> is the Fetch Standard's: a status from 200 to 299.
\<close>

record response =
  status :: nat
  json :: "jsval option"
  body :: "source option"

datatype fetched = Rejected | Resolved response

definition ok :: "response \<Rightarrow> bool" where
  "ok resp = (200 \<le> status resp \<and> status resp \<le> 299)"

text \<open>The calls streamChat makes on its three callbacks, in order.\<close>

datatype callback = OnDelta jsval | OnDone | OnError jsval

text \<open>
  The reader obtained from \<open>resp.body.getReader()\<close>: whether the stream is locked to it,
  and the reads still to come.  streamChat calls \<open>read\<close> on it and nothing else.
\<close>

record reader =
  locked :: bool
  queue :: source

record session =
  calls :: "callback list"
  handle :: "reader option"

definition network_failure :: jsval where
  "network_failure = JStr (lit ''Network connection failed, please check your network and retry'')"

text \<open>\<open>a || b\<close>.\<close>

definition or_else :: "jsval \<Rightarrow> jsval \<Rightarrow> jsval" where
  "or_else a b = (if truthy a then a else b)"

text \<open>
  The branch for a response that is not ok.  \<open>errorData.error\<close> throws on null, which the
  outer \<open>catch\<close> turns into the network failure message.
\<close>

definition rejection :: "response \<Rightarrow> callback list" where
  "rejection resp =
     (let errorData = (case json resp of None \<Rightarrow> JObj [] | Some v \<Rightarrow> v)
      in if nullish errorData then [OnError network_failure]
         else if status resp = 429
           then [OnError (or_else (property errorData (lit ''error''))
                   (JStr (lit ''Request rate too high, please try again later'')))]
         else if status resp = 402
           then [OnError (or_else (property errorData (lit ''error''))
                   (JStr (lit ''Insufficient quota, please recharge to continue'')))]
         else [OnError (or_else (property errorData (lit ''error''))
                 (JStr (lit ''Connection failed, please retry'')))])"

definition streamChat :: "(jsstring \<Rightarrow> jsval option) \<Rightarrow> fetched \<Rightarrow> session" where
  "streamChat parse fetch_result =
     (case fetch_result of
        Rejected \<Rightarrow> \<lparr>calls = [OnError network_failure], handle = None\<rparr>
      | Resolved resp \<Rightarrow>
          if \<not> ok resp then \<lparr>calls = rejection resp, handle = None\<rparr>
          else (case body resp of
                  None \<Rightarrow>
                    \<lparr>calls = [OnError (JStr (lit ''Unable to get response stream''))],
                     handle = None\<rparr>
                | Some src \<Rightarrow>
                    (let r = read_loop parse new_TextDecoder [] src;
                         rd = \<lparr>locked = True, queue = unread r\<rparr>
                     in if exit r = ReadFailed
                        then \<lparr>calls = map OnDelta (delivered r) @ [OnError network_failure],
                              handle = Some rd\<rparr>
                        else \<lparr>calls = map OnDelta (delivered r)
                                @ map OnDelta (final_flush parse (pending r)) @ [OnDone],
                              handle = Some rd\<rparr>)))"

section \<open>Callbacks that throw\<close>

text \<open>
  \<open>streamChat\<close> above is the function for callbacks that return normally.  A callback
  is a function of the caller and may throw; \<open>throws made c\<close> tells whether the call \<open>c\<close>
  does, \<open>made\<close> being the calls of the session made before it.  In the scan loop
  \<open>onDelta\<close> is called inside the \<open>try\<close> block, so that a call that throws is caught
  like a parse failure: the line is put back.  In the final flush the \<open>catch\<close> clause
  ignores it, so that the flush makes the same calls.
\<close>

function scan_cb ::
  "(callback list \<Rightarrow> callback \<Rightarrow> bool) \<Rightarrow> (jsstring \<Rightarrow> jsval option) \<Rightarrow> callback list
     \<Rightarrow> jsstring \<Rightarrow> scan_result" where
  "scan_cb throws parse made buf =
     (case indexOf buf LF of
        None \<Rightarrow> \<lparr>emitted = [], textBuffer = buf, streamDone = False\<rparr>
      | Some newlineIndex \<Rightarrow>
          (let line0 = take newlineIndex buf;
               rest = drop (newlineIndex + 1) buf;
               line = strip_cr line0
           in if startsWith line (lit '':'') \<or> trim line = [] then scan_cb throws parse made rest
              else if \<not> startsWith line (lit ''data: '') then scan_cb throws parse made rest
              else (let jsonStr = trim (drop 6 line)
                    in if jsonStr = lit ''[DONE]''
                       then \<lparr>emitted = [], textBuffer = rest, streamDone = True\<rparr>
                       else (case try_payload parse jsonStr of
                               Emitted content \<Rightarrow>
                                 if throws made (OnDelta content)
                                 then \<lparr>emitted = [content], textBuffer = line @ LF # rest,
                                       streamDone = False\<rparr>
                                 else (let r = scan_cb throws parse (made @ [OnDelta content]) rest
                                       in r\<lparr>emitted := content # emitted r\<rparr>)
                             | Silent \<Rightarrow> scan_cb throws parse made rest
                             | Threw \<Rightarrow>
                                 \<lparr>emitted = [], textBuffer = line @ LF # rest,
                                  streamDone = False\<rparr>))))"
  by pat_completeness auto

fun read_loop_cb ::
  "(callback list \<Rightarrow> callback \<Rightarrow> bool) \<Rightarrow> (jsstring \<Rightarrow> jsval option) \<Rightarrow> callback list
     \<Rightarrow> utf8_decoder \<Rightarrow> jsstring \<Rightarrow> source \<Rightarrow> loop_result" where
  "read_loop_cb throws parse made decoder buf [] =
     \<lparr>delivered = [], pending = buf, exit = Exhausted, unread = []\<rparr>"
| "read_loop_cb throws parse made decoder buf (ReadError # later) =
     \<lparr>delivered = [], pending = buf, exit = ReadFailed, unread = later\<rparr>"
| "read_loop_cb throws parse made decoder buf (Chunk v # later) =
     (let (decoder', decoded) = decode decoder v;
          s = scan_cb throws parse made (buf @ decoded)
      in if streamDone s
         then \<lparr>delivered = emitted s, pending = textBuffer s, exit = SentinelSeen,
               unread = later\<rparr>
         else (let r = read_loop_cb throws parse (made @ map OnDelta (emitted s)) decoder'
                         (textBuffer s) later
               in r\<lparr>delivered := emitted s @ delivered r\<rparr>))"

text \<open>
  The \<open>try\<close> block of streamChat: the calls it makes, and whether an exception reaches
  the \<open>catch\<close> clause (from \<open>fetch\<close>, from \<open>errorData.error\<close> on null, from a read or
  from a callback).
\<close>

definition try_block ::
  "(callback list \<Rightarrow> callback \<Rightarrow> bool) \<Rightarrow> (jsstring \<Rightarrow> jsval option) \<Rightarrow> fetched
     \<Rightarrow> callback list \<times> bool" where
  "try_block throws parse fetch_result =
     (case fetch_result of
        Rejected \<Rightarrow> ([], True)
      | Resolved resp \<Rightarrow>
          if \<not> ok resp
          then (let errorData = (case json resp of None \<Rightarrow> JObj [] | Some v \<Rightarrow> v)
                in if nullish errorData then ([], True)
                   else (let reason =
                               (if status resp = 429
                                then or_else (property errorData (lit ''error''))
                                       (JStr (lit ''Request rate too high, please try again later''))
                                else if status resp = 402
                                then or_else (property errorData (lit ''error''))
                                       (JStr (lit ''Insufficient quota, please recharge to continue''))
                                else or_else (property errorData (lit ''error''))
                                       (JStr (lit ''Connection failed, please retry'')))
                         in ([OnError reason], throws [] (OnError reason))))
          else (case body resp of
                  None \<Rightarrow>
                    ([OnError (JStr (lit ''Unable to get response stream''))],
                     throws [] (OnError (JStr (lit ''Unable to get response stream''))))
                | Some src \<Rightarrow>
                    (let r = read_loop_cb throws parse [] new_TextDecoder [] src
                     in if exit r = ReadFailed then (map OnDelta (delivered r), True)
                        else (let deltas = map OnDelta (delivered r)
                                    @ map OnDelta (final_flush parse (pending r))
                              in (deltas @ [OnDone], throws deltas OnDone)))))"

text \<open>
  streamChat with its \<open>catch\<close> clause: the calls made, and whether the promise it
  returns is rejected (the error callback of the \<open>catch\<close> clause throws).
\<close>

record run =
  invoked :: "callback list"
  rejected :: bool

definition streamChat_cb ::
  "(callback list \<Rightarrow> callback \<Rightarrow> bool) \<Rightarrow> (jsstring \<Rightarrow> jsval option) \<Rightarrow> fetched \<Rightarrow> run" where
  "streamChat_cb throws parse fetch_result =
     (let (made, thrown) = try_block throws parse fetch_result
      in if thrown
         then \<lparr>invoked = made @ [OnError network_failure],
               rejected = throws made (OnError network_failure)\<rparr>
         else \<lparr>invoked = made, rejected = False\<rparr>)"

section \<open>Notions for the statements and proofs\<close>

text \<open>The callbacks that end a session.\<close>

fun terminal :: "callback \<Rightarrow> bool" where
  "terminal (OnDelta content) = False"
| "terminal OnDone = True"
| "terminal (OnError reason) = True"

text \<open>
  What either loop makes of a line once its carriage return is stripped: the tests are
  the same in the scan loop and in the final flush, only what follows them differs.
\<close>

datatype line_class = Ignored | Sentinel | Unparsed | Delta jsval

definition classify :: "(jsstring \<Rightarrow> jsval option) \<Rightarrow> jsstring \<Rightarrow> line_class" where
  "classify parse line =
     (if startsWith line (lit '':'') \<or> trim line = [] then Ignored
      else if \<not> startsWith line (lit ''data: '') then Ignored
      else (let jsonStr = trim (drop 6 line)
            in if jsonStr = lit ''[DONE]'' then Sentinel
               else (case try_payload parse jsonStr of
                       Threw \<Rightarrow> Unparsed
                     | Emitted content \<Rightarrow> Delta content
                     | Silent \<Rightarrow> Ignored)))"

text \<open>
  A line put back after a failed parse has lost a carriage return, and loses one more at
  every later attempt.  Buffers are compared up to the carriage returns that end their
  first line.
\<close>

definition strip_crs :: "jsstring \<Rightarrow> jsstring" where
  "strip_crs l = rev (dropWhile (\<lambda>c. c = CR) (rev l))"

definition norm_cr :: "jsstring \<Rightarrow> jsstring" where
  "norm_cr buf =
     (case indexOf buf LF of None \<Rightarrow> buf | Some i \<Rightarrow> strip_crs (take i buf) @ drop i buf)"

definition obs :: "scan_result \<Rightarrow> jsval list \<times> bool \<times> jsstring" where
  "obs s = (emitted s, streamDone s, norm_cr (textBuffer s))"

text \<open>
  \<open>cr_lost suf buf\<close>: the buffer is the text \<open>suf\<close>, but for carriage returns
  before the terminator of its first line.
\<close>

definition cr_lost :: "jsstring \<Rightarrow> jsstring \<Rightarrow> bool" where
  "cr_lost suf buf =
     (suf = buf \<or>
      (\<exists>l k rest. LF \<notin> set l \<and> suf = l @ replicate k CR @ LF # rest \<and> buf = l @ LF # rest))"

text \<open>
  How the read loop over chunks \<open>r\<close> compares with the scan \<open>s\<close> of the same text as
  one piece: the same deltas, the same way out, and a buffer that is the same up to lost
  carriage returns or, after the sentinel, the part of it that was read.
\<close>

definition chunks_agree :: "loop_result \<Rightarrow> scan_result \<Rightarrow> bool" where
  "chunks_agree r s =
     (delivered r = emitted s
      \<and> exit r = (if streamDone s then SentinelSeen else Exhausted)
      \<and> (if streamDone s then prefix (pending r) (textBuffer s)
         else norm_cr (pending r) = norm_cr (textBuffer s)))"

text \<open>
  \<open>stuck parse suf\<close>: the scan loop can take no line off the text \<open>suf\<close>: it has no
  terminator, or its first line is a data line whose payload does not parse.
\<close>

definition stuck :: "(jsstring \<Rightarrow> jsval option) \<Rightarrow> jsstring \<Rightarrow> bool" where
  "stuck parse suf =
     (case indexOf suf LF of
        None \<Rightarrow> True
      | Some i \<Rightarrow> classify parse (strip_cr (take i suf)) = Unparsed)"


text \<open>
  The final flush as the specification words it: the rules of the scan loop, where the
  sentinel ends the processing, but a line that does not parse is dropped.
\<close>

fun spec_final_flush :: "(jsstring \<Rightarrow> jsval option) \<Rightarrow> jsstring list \<Rightarrow> jsval list" where
  "spec_final_flush parse [] = []"
| "spec_final_flush parse (raw # raws) =
     (case classify parse (strip_cr raw) of
        Sentinel \<Rightarrow> []
      | Delta content \<Rightarrow> content # spec_final_flush parse raws
      | Ignored \<Rightarrow> spec_final_flush parse raws
      | Unparsed \<Rightarrow> spec_final_flush parse raws)"

text \<open>
  The examples: a response with status 200 and the given body, the payload object
  \<open>{"choices":[{"delta":{"content": c}}]}\<close>, and what \<open>JSON.parse\<close> returns on the
  payloads of the examples (the two objects; every other payload they use is no JSON
  text, so that \<open>JSON.parse\<close> throws).
\<close>

definition ok_response :: "source \<Rightarrow> fetched" where
  "ok_response src = Resolved \<lparr>status = 200, json = None, body = Some src\<rparr>"

definition delta_object :: "string \<Rightarrow> jsval" where
  "delta_object c =
     JObj [(lit ''choices'', JArr [JObj [(lit ''delta'', JObj [(lit ''content'', JStr (lit c))])]])]"

definition sample_parse :: "jsstring \<Rightarrow> jsval option" where
  "sample_parse s =
     (if s = lit ''{\"choices\":[{\"delta\":{\"content\":\"Hel\"}}]}'' then Some (delta_object ''Hel'')
      else if s = lit ''{\"choices\":[{\"delta\":{\"content\":\"lo\"}}]}'' then Some (delta_object ''lo'')
      else None)"

text \<open>
  The frames of the examples, without their line terminator, and the two halves of the
  second one, cut after \<open>data: {"choices":[{"delta"\<close>.
\<close>

definition nl :: bytes where
  "nl = ''\<newline>''"

definition hel_frame :: bytes where
  "hel_frame = ''data: {\"choices\":[{\"delta\":{\"content\":\"Hel\"}}]}''"

definition lo_frame :: bytes where
  "lo_frame = ''data: {\"choices\":[{\"delta\":{\"content\":\"lo\"}}]}''"

definition lo_head :: bytes where
  "lo_head = ''data: {\"choices\":[{\"delta\"''"

definition lo_tail :: bytes where
  "lo_tail = '':{\"content\":\"lo\"}}]}''"

definition done_frame :: bytes where
  "done_frame = ''data: [DONE]''"

definition bad_frame :: bytes where
  "bad_frame = ''data: not-json''"



definition comment_text :: jsstring where
  "comment_text = lit '': caf'' @ [0xE9]"

text \<open>
  On bytes below 128 the decoder is the embedding \<open>lit\<close>; the read loop over such
  chunks, for evaluating the examples.
\<close>

definition is_ascii :: "char \<Rightarrow> bool" where
  "is_ascii b = (of_char b < (128::nat))"

fun ascii_source :: "source \<Rightarrow> bool" where
  "ascii_source [] = True"
| "ascii_source (ReadError # later) = ascii_source later"
| "ascii_source (Chunk v # later) = (list_all is_ascii v \<and> ascii_source later)"

fun ascii_loop :: "(jsstring \<Rightarrow> jsval option) \<Rightarrow> jsstring \<Rightarrow> source \<Rightarrow> loop_result" where
  "ascii_loop parse buf [] =
     \<lparr>delivered = [], pending = buf, exit = Exhausted, unread = []\<rparr>"
| "ascii_loop parse buf (ReadError # later) =
     \<lparr>delivered = [], pending = buf, exit = ReadFailed, unread = later\<rparr>"
| "ascii_loop parse buf (Chunk v # later) =
     (let s = scan parse (buf @ lit v)
      in if streamDone s
         then \<lparr>delivered = emitted s, pending = textBuffer s, exit = SentinelSeen,
               unread = later\<rparr>
         else (let r = ascii_loop parse (textBuffer s) later
               in r\<lparr>delivered := emitted s @ delivered r\<rparr>))"

text \<open>The reason streamChat reports for a status when the response body names none.\<close>

definition default_reason :: "nat \<Rightarrow> jsval" where
  "default_reason st =
     JStr (lit (if st = 429 then ''Request rate too high, please try again later''
                else if st = 402 then ''Insufficient quota, please recharge to continue''
                else ''Connection failed, please retry''))"



section \<open>Termination of the scan loops\<close>

lemma indexOf_less: "indexOf s c = Some i \<Longrightarrow> i < length s"
  by (induction s arbitrary: i) (auto split: if_splits)

termination scan
  by (relation "measure (\<lambda>(parse, buf). length buf)") (auto dest: indexOf_less)

termination scan_cb
  by (relation "measure (\<lambda>(throws, parse, made, buf). length buf)") (auto dest: indexOf_less)

section \<open>The scan loop, line by line\<close>

declare scan.simps [simp del]

lemma indexOf_None: "indexOf s c = None \<longleftrightarrow> c \<notin> set s"
  by (induction s) auto

lemma indexOf_append: "c \<notin> set l \<Longrightarrow> indexOf (l @ c # r) c = Some (length l)"
  by (induction l) auto

lemma scan_no_LF:
  "LF \<notin> set buf \<Longrightarrow> scan parse buf = \<lparr>emitted = [], textBuffer = buf, streamDone = False\<rparr>"
  by (subst scan.simps) (simp add: indexOf_None [THEN iffD2])

lemma scan_line:
  "LF \<notin> set l \<Longrightarrow>
   scan parse (l @ LF # rest) =
     (case classify parse (strip_cr l) of
        Ignored \<Rightarrow> scan parse rest
      | Sentinel \<Rightarrow> \<lparr>emitted = [], textBuffer = rest, streamDone = True\<rparr>
      | Unparsed \<Rightarrow> \<lparr>emitted = [], textBuffer = strip_cr l @ LF # rest, streamDone = False\<rparr>
      | Delta c \<Rightarrow> (scan parse rest)\<lparr>emitted := c # emitted (scan parse rest)\<rparr>)"
  by (subst scan.simps) (simp add: indexOf_append classify_def Let_def split: attempt.splits)

lemma strip_cr_Nil: "strip_cr [] = []"
  by (simp add: strip_cr_def endsWith_def)

lemma trim_Nil: "trim [] = []"
  by (simp add: trim_def)

lemma flush_line_classify:
  "flush_line parse l = (case classify parse (strip_cr l) of Delta c \<Rightarrow> [c] | _ \<Rightarrow> [])"
  by (cases "l = []")
     (simp_all add: flush_line_def classify_def Let_def strip_cr_Nil trim_Nil split: attempt.splits)

lemma is_ws_CR: "is_ws CR"
  by (simp add: is_ws_def CR_def)

lemma trim_snoc_ws: "is_ws c \<Longrightarrow> trim (s @ [c]) = trim s"
proof (cases "\<forall>x\<in>set s. is_ws x")
  case True
  assume "is_ws c"
  with True have "dropWhile is_ws (s @ [c]) = []" "dropWhile is_ws s = []"
    by (simp_all add: dropWhile_eq_Nil_conv)
  then show ?thesis unfolding trim_def by (simp only:)
next
  case False
  assume c: "is_ws c"
  from False obtain x where "x \<in> set s" "\<not> is_ws x" by blast
  then have "dropWhile is_ws (s @ [c]) = dropWhile is_ws s @ [c]"
    by (rule dropWhile_append1)
  with c show ?thesis by (simp add: trim_def)
qed

lemma startsWith_snoc:
  assumes "p \<noteq> []" "last p \<noteq> c"
  shows "startsWith (s @ [c]) p = startsWith s p"
proof (cases "length p \<le> length s")
  case True
  then show ?thesis by (simp add: startsWith_def)
next
  case False
  have a: "take (length p) s \<noteq> p"
  proof
    assume "take (length p) s = p"
    then have "length (take (length p) s) = length p" by simp
    with False show False by simp
  qed
  have "take (length p) (s @ [c]) \<noteq> p"
  proof
    assume e: "take (length p) (s @ [c]) = p"
    from False have "take (length p) (s @ [c]) = s @ [c]" by simp
    with e have "last p = c" by (metis last_snoc)
    with assms show False by simp
  qed
  with a show ?thesis by (simp add: startsWith_def)
qed

lemma drop_snoc_trim: "is_ws c \<Longrightarrow> trim (drop n (s @ [c])) = trim (drop n s)"
proof (cases "n \<le> length s")
  case True
  assume "is_ws c"
  with True show ?thesis by (simp add: trim_snoc_ws)
next
  case False
  assume c: "is_ws c"
  from False have "drop n (s @ [c]) = [] \<or> drop n (s @ [c]) = [c]"
    by (cases "n - length s") auto
  with False c show ?thesis by (auto simp: trim_def)
qed

lemma classify_snoc_CR: "classify parse (l @ [CR]) = classify parse l"
proof -
  have a: "startsWith (l @ [CR]) (lit '':'') = startsWith l (lit '':'')"
    by (rule startsWith_snoc) (simp_all add: lit_def CR_def)
  have b: "startsWith (l @ [CR]) (lit ''data: '') = startsWith l (lit ''data: '')"
    by (rule startsWith_snoc) (simp_all add: lit_def CR_def)
  show ?thesis
    unfolding classify_def a b by (simp only: trim_snoc_ws [OF is_ws_CR] drop_snoc_trim [OF is_ws_CR])
qed

lemma strip_cr_cases: "strip_cr l = l \<or> l = strip_cr l @ [CR]"
  by (cases l rule: rev_cases) (auto simp: strip_cr_def endsWith_def)

lemma classify_strip_cr: "classify parse (strip_cr l) = classify parse l"
  using strip_cr_cases [of l] classify_snoc_CR [of parse "strip_cr l"] by auto

lemma strip_crs_snoc: "strip_crs (l @ [c]) = (if c = CR then strip_crs l else l @ [c])"
  by (simp add: strip_crs_def)

lemma classify_strip_crs: "classify parse (strip_crs l) = classify parse l"
  by (induction l rule: rev_induct) (simp_all add: strip_crs_snoc classify_snoc_CR, simp add: strip_crs_def)

lemma strip_crs_strip_cr: "strip_crs (strip_cr l) = strip_crs l"
  using strip_cr_cases [of l] strip_crs_snoc [of "strip_cr l" CR] by auto

lemma set_strip_cr: "set (strip_cr l) \<subseteq> set l"
  by (auto simp: strip_cr_def dest: in_set_butlastD)

lemma set_strip_crs: "set (strip_crs l) \<subseteq> set l"
  by (auto simp: strip_crs_def dest: set_dropWhileD)

lemma norm_cr_no_LF: "LF \<notin> set b \<Longrightarrow> norm_cr b = b"
  by (simp add: norm_cr_def indexOf_None [THEN iffD2])

lemma norm_cr_line: "LF \<notin> set l \<Longrightarrow> norm_cr (l @ LF # r) = strip_crs l @ LF # r"
  by (simp add: norm_cr_def indexOf_append)

lemma first_LF: "LF \<in> set b \<Longrightarrow> \<exists>l r. b = l @ LF # r \<and> LF \<notin> set l"
  by (metis split_list_first)

lemma scan_append_done:
  "streamDone (scan parse x) \<Longrightarrow>
   scan parse (x @ y) = (scan parse x)\<lparr>textBuffer := textBuffer (scan parse x) @ y\<rparr>"
proof (induction x rule: length_induct)
  case (1 x)
  show ?case
  proof (cases "LF \<in> set x")
    case False
    with "1.prems" show ?thesis by (simp add: scan_no_LF)
  next
    case True
    then obtain l r where x: "x = l @ LF # r" and l: "LF \<notin> set l"
      using first_LF by blast
    have ih: "streamDone (scan parse r) \<Longrightarrow>
        scan parse (r @ y) = (scan parse r)\<lparr>textBuffer := textBuffer (scan parse r) @ y\<rparr>"
      using "1.IH" x by simp
    from "1.prems" ih show ?thesis
      unfolding x by (cases "classify parse (strip_cr l)") (simp_all add: scan_line [OF l])
  qed
qed

lemma scan_append:
  "\<not> streamDone (scan parse x) \<Longrightarrow>
   obs (scan parse (x @ y)) =
     (case obs (scan parse (textBuffer (scan parse x) @ y)) of
        (e, d, b) \<Rightarrow> (emitted (scan parse x) @ e, d, b))"
proof (induction x rule: length_induct)
  case (1 x)
  show ?case
  proof (cases "LF \<in> set x")
    case False
    then show ?thesis by (simp add: scan_no_LF obs_def)
  next
    case True
    then obtain l r where x: "x = l @ LF # r" and l: "LF \<notin> set l"
      using first_LF by blast
    have l': "LF \<notin> set (strip_cr l)" "LF \<notin> set (strip_cr (strip_cr l))"
      using l set_strip_cr by blast+
    have ih: "\<not> streamDone (scan parse r) \<Longrightarrow>
        obs (scan parse (r @ y)) =
          (case obs (scan parse (textBuffer (scan parse r) @ y)) of
             (e, d, b) \<Rightarrow> (emitted (scan parse r) @ e, d, b))"
      using "1.IH" x by simp
    show ?thesis
    proof (cases "classify parse (strip_cr l)")
      case Ignored
      with "1.prems" ih show ?thesis unfolding x by (simp add: scan_line [OF l])
    next
      case Sentinel
      with "1.prems" show ?thesis unfolding x by (simp add: scan_line [OF l])
    next
      case Unparsed
      then have c2: "classify parse (strip_cr (strip_cr l)) = Unparsed"
        by (simp add: classify_strip_cr)
      have "scan parse ((strip_cr l @ LF # r) @ y) =
          \<lparr>emitted = [], textBuffer = strip_cr (strip_cr l) @ LF # r @ y, streamDone = False\<rparr>"
        using scan_line [OF l'(1), of parse "r @ y"] c2 by simp
      with Unparsed show ?thesis
        unfolding x
        by (simp add: scan_line [OF l] obs_def norm_cr_line l' strip_crs_strip_cr)
    next
      case (Delta c)
      with "1.prems" ih show ?thesis
        unfolding x by (simp add: scan_line [OF l] obs_def split: prod.splits)
    qed
  qed
qed

lemma scan_settled:
  assumes "\<not> streamDone (scan parse x)"
  shows "obs (scan parse (textBuffer (scan parse x))) = ([], False, norm_cr (textBuffer (scan parse x)))"
  using scan_append [OF assms, of "[]"] assms by (auto simp: obs_def split: prod.splits)

lemma first_occurrence_unique:
  "c \<notin> set a \<Longrightarrow> c \<notin> set b \<Longrightarrow> a @ c # r = b @ c # r' \<Longrightarrow> a = b \<and> r = r'"
proof (induction a arbitrary: b)
  case Nil
  then show ?case by (cases b) auto
next
  case (Cons x a)
  then show ?case by (cases b) auto
qed

lemma scan_norm_cr:
  assumes "norm_cr b1 = norm_cr b2"
  shows "obs (scan parse (b1 @ y)) = obs (scan parse (b2 @ y))"
proof (cases "LF \<in> set b1")
  case False
  then have n1: "norm_cr b1 = b1" by (simp add: norm_cr_no_LF)
  show ?thesis
  proof (cases "LF \<in> set b2")
    case False
    with n1 assms show ?thesis by (simp add: norm_cr_no_LF)
  next
    case True
    then obtain l r where "b2 = l @ LF # r" "LF \<notin> set l" using first_LF by blast
    then have "LF \<in> set (norm_cr b2)" by (simp add: norm_cr_line)
    with assms n1 False show ?thesis by simp
  qed
next
  case True
  then obtain l1 r1 where b1: "b1 = l1 @ LF # r1" and l1: "LF \<notin> set l1"
    using first_LF by blast
  then have n1: "norm_cr b1 = strip_crs l1 @ LF # r1" by (simp add: norm_cr_line)
  then have "LF \<in> set b2"
    using assms norm_cr_no_LF [of b2] by (metis in_set_conv_decomp)
  then obtain l2 r2 where b2: "b2 = l2 @ LF # r2" and l2: "LF \<notin> set l2"
    using first_LF by blast
  then have n2: "norm_cr b2 = strip_crs l2 @ LF # r2" by (simp add: norm_cr_line)
  have s1: "LF \<notin> set (strip_crs l1)" and s2: "LF \<notin> set (strip_crs l2)"
    using l1 l2 set_strip_crs by blast+
  from assms n1 n2 have eq: "strip_crs l1 = strip_crs l2" and r: "r1 = r2"
    using first_occurrence_unique [OF s1 s2] by auto
  have c: "classify parse (strip_cr l1) = classify parse (strip_cr l2)"
    using eq classify_strip_crs [of parse l1] classify_strip_crs [of parse l2]
    by (simp add: classify_strip_cr)
  have l': "LF \<notin> set (strip_cr l1)" "LF \<notin> set (strip_cr l2)"
    using l1 l2 set_strip_cr by blast+
  show ?thesis
    unfolding b1 b2 r using c eq
    by (cases "classify parse (strip_cr l2)")
       (simp_all add: scan_line [OF l1] scan_line [OF l2] obs_def norm_cr_line l' strip_crs_strip_cr)
qed

lemma decode_append:
  "decode d (a @ b) =
     (let (d1, s1) = decode d a; (d2, s2) = decode d1 b in (d2, s1 @ s2))"
  by (induction a arbitrary: d) (simp_all add: Let_def split: prod.splits)

lemma snd_decode_append:
  "snd (decode d (a @ b)) = snd (decode d a) @ snd (decode (fst (decode d a)) b)"
  by (simp add: decode_append split: prod.splits)

lemma split_no_sep: "c \<notin> set l \<Longrightarrow> split l c = [l]"
  by (induction l) auto

lemma split_line: "c \<notin> set l \<Longrightarrow> split (l @ c # r) c = l # split r c"
  by (induction l) auto

lemma split_not_Nil: "split b c \<noteq> []"
  by (induction b) (auto split: list.splits)

lemma set_split: "p \<in> set (split b c) \<Longrightarrow> set p \<subseteq> set b"
proof (induction b arbitrary: p)
  case Nil
  then show ?case by simp
next
  case (Cons x b)
  show ?case
  proof (cases "x = c")
    case True
    with Cons show ?thesis by auto
  next
    case False
    obtain q qs where q: "split b c = q # qs"
      using split_not_Nil [of b c] by (cases "split b c") auto
    then have "set q \<subseteq> set b" "\<And>p. p \<in> set qs \<Longrightarrow> set p \<subseteq> set b"
      using Cons.IH by simp_all
    with Cons.prems False q show ?thesis by auto
  qed
qed

lemma trim_Nil_iff: "trim s = [] \<longleftrightarrow> (\<forall>x\<in>set s. is_ws x)"
proof
  assume "trim s = []"
  then have "dropWhile is_ws s = []"
    unfolding trim_def
    by (metis dropWhile_eq_Nil_conv hd_dropWhile rev_is_Nil_conv last_rev list.set_sel(1) rev.simps(1) set_rev)
  then show "\<forall>x\<in>set s. is_ws x" by (simp add: dropWhile_eq_Nil_conv)
next
  assume "\<forall>x\<in>set s. is_ws x"
  then have "dropWhile is_ws s = []" by (simp add: dropWhile_eq_Nil_conv)
  then show "trim s = []" unfolding trim_def by (simp only: rev.simps dropWhile.simps)
qed

lemma classify_blank: "trim l = [] \<Longrightarrow> classify parse l = Ignored"
  by (simp add: classify_def)

lemma flush_line_blank: "\<forall>x\<in>set l. is_ws x \<Longrightarrow> flush_line parse l = []"
  by (simp add: flush_line_classify classify_strip_cr classify_blank trim_Nil_iff)

lemma final_flush_eq: "final_flush parse b = concat (map (flush_line parse) (split b LF))"
proof (cases "trim b = []")
  case False
  then show ?thesis by (simp add: final_flush_def)
next
  case True
  then have "\<forall>p\<in>set (split b LF). flush_line parse p = []"
    using set_split [of _ b LF] flush_line_blank [of _ parse]
    by (meson subsetD trim_Nil_iff)
  with True show ?thesis by (simp add: final_flush_def)
qed

lemma flush_line_strip_crs: "flush_line parse (strip_crs l) = flush_line parse l"
  by (simp add: flush_line_classify classify_strip_cr classify_strip_crs)

lemma final_flush_norm_cr: "final_flush parse (norm_cr b) = final_flush parse b"
proof (cases "LF \<in> set b")
  case False
  then show ?thesis by (simp add: norm_cr_no_LF)
next
  case True
  then obtain l r where b: "b = l @ LF # r" and l: "LF \<notin> set l" using first_LF by blast
  have "LF \<notin> set (strip_crs l)" using l set_strip_crs by blast
  then show ?thesis
    unfolding b by (simp add: final_flush_eq norm_cr_line l split_line flush_line_strip_crs)
qed

section \<open>Lost carriage returns\<close>

lemma CR_not_LF: "CR \<noteq> LF"
  by (simp add: CR_def LF_def)




lemma strip_crs_replicate: "strip_crs (l @ replicate k CR) = strip_crs l"
proof -
  have "dropWhile (\<lambda>c. c = CR) (replicate k CR @ rev l) = dropWhile (\<lambda>c. c = CR) (rev l)"
    by (induction k) simp_all
  then show ?thesis by (simp add: strip_crs_def)
qed

lemma cr_lost_norm_cr: "cr_lost a b \<Longrightarrow> norm_cr a = norm_cr b"
  unfolding cr_lost_def
proof (elim disjE exE conjE)
  fix l k rest
  assume l: "LF \<notin> set l" and a: "a = l @ replicate k CR @ LF # rest" and b: "b = l @ LF # rest"
  have "LF \<notin> set (l @ replicate k CR)" using l CR_not_LF by auto
  then have "norm_cr ((l @ replicate k CR) @ LF # rest) = strip_crs (l @ replicate k CR) @ LF # rest"
    by (rule norm_cr_line)
  then show "norm_cr a = norm_cr b"
    using l by (simp add: a b norm_cr_line strip_crs_replicate)
qed simp


section \<open>Scanning a text in pieces\<close>

lemma scan_through:
  "textBuffer (scan parse pre) = [] \<Longrightarrow> \<not> streamDone (scan parse pre) \<Longrightarrow>
   scan parse (pre @ x) =
     (scan parse x)\<lparr>emitted := emitted (scan parse pre) @ emitted (scan parse x)\<rparr>"
proof (induction pre rule: length_induct)
  case (1 pre)
  show ?case
  proof (cases "LF \<in> set pre")
    case False
    with "1.prems" have "pre = []" by (simp add: scan_no_LF)
    then show ?thesis by (simp add: scan_no_LF)
  next
    case True
    then obtain l r where pre: "pre = l @ LF # r" and l: "LF \<notin> set l"
      using first_LF by blast
    have ih: "textBuffer (scan parse r) = [] \<Longrightarrow> \<not> streamDone (scan parse r) \<Longrightarrow>
        scan parse (r @ x) =
          (scan parse x)\<lparr>emitted := emitted (scan parse r) @ emitted (scan parse x)\<rparr>"
      using "1.IH" pre by simp
    from "1.prems" ih show ?thesis
      unfolding pre by (cases "classify parse (strip_cr l)") (simp_all add: scan_line [OF l])
  qed
qed

lemma scan_append_buffer:
  "\<not> streamDone (scan parse x) \<Longrightarrow> streamDone (scan parse (x @ y)) \<Longrightarrow>
   textBuffer (scan parse (x @ y)) = textBuffer (scan parse (textBuffer (scan parse x) @ y))"
proof (induction x rule: length_induct)
  case (1 x)
  show ?case
  proof (cases "LF \<in> set x")
    case False
    then show ?thesis by (simp add: scan_no_LF)
  next
    case True
    then obtain l r where x: "x = l @ LF # r" and l: "LF \<notin> set l"
      using first_LF by blast
    have ih: "\<not> streamDone (scan parse r) \<Longrightarrow> streamDone (scan parse (r @ y)) \<Longrightarrow>
        textBuffer (scan parse (r @ y)) = textBuffer (scan parse (textBuffer (scan parse r) @ y))"
      using "1.IH" x by simp
    from "1.prems" ih show ?thesis
      unfolding x by (cases "classify parse (strip_cr l)") (simp_all add: scan_line [OF l])
  qed
qed

declare read_loop.simps [simp del]

lemma obs_eqI:
  "obs s = (e, d, b) \<Longrightarrow> emitted s = e \<and> streamDone s = d \<and> norm_cr (textBuffer s) = b"
  by (simp add: obs_def)

lemma read_loop_chunks:
  "obs (scan parse buf) = ([], False, norm_cr buf) \<Longrightarrow>
   chunks_agree (read_loop parse d buf (map Chunk cs))
     (scan parse (buf @ snd (decode d (concat cs))))"
proof (induction cs arbitrary: d buf)
  case Nil
  then show ?case by (simp add: chunks_agree_def obs_def read_loop.simps)
next
  case (Cons c cs)
  obtain d' t where dec: "decode d c = (d', t)" by (cases "decode d c") auto
  define T where "T = snd (decode d' (concat cs))"
  have whole: "buf @ snd (decode d (concat (c # cs))) = (buf @ t) @ T"
    by (simp add: snd_decode_append dec T_def)
  define s1 where "s1 = scan parse (buf @ t)"
  show ?case
  proof (cases "streamDone s1")
    case True
    have r: "read_loop parse d buf (map Chunk (c # cs)) =
        \<lparr>delivered = emitted s1, pending = textBuffer s1, exit = SentinelSeen,
         unread = map Chunk cs\<rparr>"
      using True by (simp add: dec s1_def Let_def read_loop.simps)
    have "scan parse ((buf @ t) @ T) = s1\<lparr>textBuffer := textBuffer s1 @ T\<rparr>"
      using True unfolding s1_def by (rule scan_append_done)
    with True show ?thesis
      unfolding whole r by (simp add: chunks_agree_def)
  next
    case False
    define r' where "r' = read_loop parse d' (textBuffer s1) (map Chunk cs)"
    define s' where "s' = scan parse (textBuffer s1 @ T)"
    define s where "s = scan parse ((buf @ t) @ T)"
    have r: "read_loop parse d buf (map Chunk (c # cs)) =
        r'\<lparr>delivered := emitted s1 @ delivered r'\<rparr>"
      using False by (simp add: dec s1_def r'_def Let_def read_loop.simps)
    have "obs (scan parse (textBuffer s1)) = ([], False, norm_cr (textBuffer s1))"
      using False unfolding s1_def by (rule scan_settled)
    then have ih: "chunks_agree r' s'"
      unfolding r'_def s'_def T_def by (rule Cons.IH)
    have "obs s = (case obs s' of (e, d, b) \<Rightarrow> (emitted s1 @ e, d, b))"
      using False unfolding s1_def s'_def s_def by (rule scan_append)
    then have "obs s = (emitted s1 @ emitted s', streamDone s', norm_cr (textBuffer s'))"
      by (simp add: obs_def)
    then have o: "emitted s = emitted s1 @ emitted s' \<and> streamDone s = streamDone s'
        \<and> norm_cr (textBuffer s) = norm_cr (textBuffer s')"
      by (rule obs_eqI)
    have b: "textBuffer s = textBuffer s'" if "streamDone s"
      using False that unfolding s1_def s'_def s_def by (rule scan_append_buffer)
    show ?thesis
    proof (cases "streamDone s")
      case True
      with o b ih show ?thesis
        unfolding whole r s_def [symmetric] by (simp add: chunks_agree_def)
    next
      case False
      with o ih show ?thesis
        unfolding whole r s_def [symmetric] by (simp add: chunks_agree_def)
    qed
  qed
qed

section \<open>The buffer and the text received\<close>



lemma stuck_line:
  "LF \<notin> set l \<Longrightarrow> stuck parse (l @ LF # r) = (classify parse (strip_cr l) = Unparsed)"
  by (simp add: stuck_def indexOf_append)


lemma classify_replicate: "classify parse (l @ replicate k CR) = classify parse l"
  using classify_strip_crs [of parse "l @ replicate k CR"] classify_strip_crs [of parse l]
  by (simp add: strip_crs_replicate)



lemma cr_lost_first_line:
  assumes "cr_lost a b"
  shows "stuck parse a = stuck parse b"
proof (cases "a = b")
  case True
  then show ?thesis by simp
next
  case False
  with assms obtain l k rest where l: "LF \<notin> set l"
    and a0: "a = l @ replicate k CR @ LF # rest" and b: "b = l @ LF # rest"
    unfolding cr_lost_def by auto
  define m where "m = l @ replicate k CR"
  have a: "a = m @ LF # rest" by (simp add: a0 m_def)
  have m: "LF \<notin> set m" using l CR_not_LF by (auto simp: m_def)
  have c: "classify parse (strip_cr m) = classify parse (strip_cr l)"
    by (simp add: m_def classify_strip_cr classify_replicate)
  show ?thesis
    unfolding a b by (simp add: stuck_line [OF m] stuck_line [OF l] c)
qed



section \<open>Chunk boundaries\<close>


lemma scan_Nil: "obs (scan parse []) = ([], False, norm_cr [])"
  by (simp add: scan_no_LF obs_def)

lemma calls_ok_response:
  "calls (streamChat parse (ok_response src)) =
     (let r = read_loop parse new_TextDecoder [] src
      in if exit r = ReadFailed then map OnDelta (delivered r) @ [OnError network_failure]
         else map OnDelta (delivered r) @ map OnDelta (final_flush parse (pending r)) @ [OnDone])"
  by (simp add: streamChat_def ok_response_def ok_def Let_def)

section \<open>Evaluating the examples\<close>

lemma lit_append: "lit (a @ b) = lit a @ lit b"
  by (simp add: lit_def)

lemma lit_nl: "lit nl = [LF]"
  by (simp add: lit_def nl_def LF_def)

lemma decode_ascii:
  "bytes_needed d = 0 \<Longrightarrow> list_all is_ascii bs \<Longrightarrow>
   snd (decode d bs) = lit bs \<and> bytes_needed (fst (decode d bs)) = 0"
proof (induction bs arbitrary: d)
  case Nil
  then show ?case by (simp add: lit_def)
next
  case (Cons b bs)
  then have b: "of_char b < (128::nat)" by (simp add: is_ascii_def)
  then have h: "utf8_handler d (of_char b) = (d, [of_char b])"
    using Cons.prems by (simp add: utf8_handler_def lead_byte_def)
  have u: "utf16 (of_char b) = [of_char b]"
    using b by (simp add: utf16_def of_char_def)
  have f: "of_char b \<noteq> (0xFEFF::nat)" using b by simp
  obtain d1 where s: "serialize d [of_char b] = (d1, [of_char b])" and d1: "bytes_needed d1 = 0"
    using f u Cons.prems(1) by (cases "bom_seen d") simp_all
  from Cons.IH [OF d1] Cons.prems(2)
  have "snd (decode d1 bs) = lit bs \<and> bytes_needed (fst (decode d1 bs)) = 0" by simp
  then show ?case
    by (auto simp add: h s lit_def simp del: serialize.simps split: prod.splits)
qed

lemma read_loop_ascii:
  "bytes_needed d = 0 \<Longrightarrow> ascii_source src \<Longrightarrow>
   read_loop parse d buf src = ascii_loop parse buf src"
proof (induction src arbitrary: d buf)
  case Nil
  then show ?case by (simp add: read_loop.simps)
next
  case (Cons x src)
  show ?case
  proof (cases x)
    case ReadError
    then show ?thesis by (simp add: read_loop.simps)
  next
    case (Chunk v)
    with Cons.prems have a: "list_all is_ascii v" and src: "ascii_source src" by simp_all
    obtain d' t where dec: "decode d v = (d', t)" by (cases "decode d v") auto
    with decode_ascii [OF Cons.prems(1) a] have t: "t = lit v" and d': "bytes_needed d' = 0"
      by simp_all
    show ?thesis
      unfolding Chunk
      by (simp add: read_loop.simps dec t Cons.IH [OF d' src] Let_def)
  qed
qed

lemma new_TextDecoder_idle: "bytes_needed new_TextDecoder = 0"
  by (simp add: new_TextDecoder_def)

lemma calls_ascii:
  "ascii_source src \<Longrightarrow>
   calls (streamChat parse (ok_response src)) =
     (let r = ascii_loop parse [] src
      in if exit r = ReadFailed then map OnDelta (delivered r) @ [OnError network_failure]
         else map OnDelta (delivered r) @ map OnDelta (final_flush parse (pending r)) @ [OnDone])"
  by (simp add: calls_ok_response read_loop_ascii [OF new_TextDecoder_idle])

lemma scan_line2:
  assumes "LF \<notin> set a" "LF \<notin> set b"
  shows "scan parse (a @ b @ LF # rest) =
     (case classify parse (a @ b) of
        Ignored \<Rightarrow> scan parse rest
      | Sentinel \<Rightarrow> \<lparr>emitted = [], textBuffer = rest, streamDone = True\<rparr>
      | Unparsed \<Rightarrow>
          \<lparr>emitted = [], textBuffer = strip_cr (a @ b) @ LF # rest, streamDone = False\<rparr>
      | Delta c \<Rightarrow> (scan parse rest)\<lparr>emitted := c # emitted (scan parse rest)\<rparr>)"
  using scan_line [of "a @ b" parse rest] assms by (simp add: classify_strip_cr)

lemma frames_ascii:
  "list_all is_ascii nl" "list_all is_ascii hel_frame" "list_all is_ascii lo_frame"
  "list_all is_ascii lo_head" "list_all is_ascii lo_tail" "list_all is_ascii done_frame"
  "list_all is_ascii bad_frame"
  by (simp_all add: is_ascii_def nl_def hel_frame_def lo_frame_def lo_head_def lo_tail_def
      done_frame_def bad_frame_def)

lemma frames_no_LF:
  "LF \<notin> set (lit hel_frame)" "LF \<notin> set (lit lo_frame)" "LF \<notin> set (lit lo_head)"
  "LF \<notin> set (lit lo_tail)" "LF \<notin> set (lit done_frame)" "LF \<notin> set (lit bad_frame)"
  "LF \<notin> set comment_text"
  by (simp_all add: lit_def LF_def hel_frame_def lo_frame_def lo_head_def lo_tail_def
      done_frame_def bad_frame_def comment_text_def)

lemma frames_strip_cr:
  "strip_cr (lit hel_frame) = lit hel_frame" "strip_cr (lit lo_frame) = lit lo_frame"
  "strip_cr (lit done_frame) = lit done_frame" "strip_cr (lit bad_frame) = lit bad_frame"
  "strip_cr comment_text = comment_text"
  by (simp_all add: strip_cr_def endsWith_def lit_def CR_def hel_frame_def lo_frame_def
      done_frame_def bad_frame_def comment_text_def)


lemma classify_hel: "classify sample_parse (lit hel_frame) = Delta (JStr (lit ''Hel''))"
  by (simp add: classify_def hel_frame_def Let_def lit_def startsWith_def trim_def is_ws_def
      sample_parse_def try_payload_def delta_content_def delta_object_def opt_chain_def)

lemma classify_lo: "classify sample_parse (lit lo_frame) = Delta (JStr (lit ''lo''))"
  by (simp add: classify_def lo_frame_def Let_def lit_def startsWith_def trim_def is_ws_def
      sample_parse_def try_payload_def delta_content_def delta_object_def opt_chain_def)

lemma classify_done: "classify parse (lit done_frame) = Sentinel"
  by (simp add: classify_def done_frame_def Let_def lit_def startsWith_def trim_def is_ws_def)

lemma classify_bad: "classify sample_parse (lit bad_frame) = Unparsed"
  by (simp add: classify_def bad_frame_def Let_def lit_def startsWith_def trim_def is_ws_def
      sample_parse_def try_payload_def)

lemma classify_comment: "classify parse comment_text = Ignored"
  by (simp add: classify_def comment_text_def lit_def startsWith_def)

lemma final_flush_Nil: "final_flush parse [] = []"
  by (simp add: final_flush_def trim_Nil)

lemma classify_Nil: "classify parse [] = Ignored"
  by (simp add: classify_def trim_Nil)

lemmas frame_facts =
  classify_Nil strip_cr_Nil
  frames_ascii frames_no_LF frames_strip_cr classify_hel classify_lo classify_done
  classify_bad classify_comment classify_strip_cr lit_append lit_nl scan_no_LF
  final_flush_eq split_line split_no_sep flush_line_classify Let_def







section \<open>Lines that carry the data prefix\<close>

lemma data_prefix:
  assumes "startsWith line (lit ''data: '')"
  shows "\<not> startsWith line (lit '':'')" and "trim line \<noteq> []"
proof -
  from assms obtain rest where line: "line = 100 # rest"
    by (cases line) (auto simp: startsWith_def lit_def)
  show "\<not> startsWith line (lit '':'')"
    by (simp add: line startsWith_def lit_def)
  have "\<not> is_ws 100" by (simp add: is_ws_def)
  then show "trim line \<noteq> []"
    unfolding trim_Nil_iff line by auto
qed

lemma classify_sentinel:
  "startsWith line (lit ''data: '') \<Longrightarrow> trim (drop 6 line) = lit ''[DONE]'' \<Longrightarrow>
   classify parse line = Sentinel"
  by (simp add: classify_def data_prefix)

lemma classify_unparsed:
  "startsWith line (lit ''data: '') \<Longrightarrow> trim (drop 6 line) \<noteq> lit ''[DONE]'' \<Longrightarrow>
   parse (trim (drop 6 line)) = None \<Longrightarrow> classify parse line = Unparsed"
  by (simp add: classify_def data_prefix try_payload_def)

lemma bad_payload: "trim (drop 6 (lit bad_frame)) = lit ''not-json''"
  by (simp add: bad_frame_def lit_def trim_def is_ws_def)

lemma bad_prefix: "startsWith (lit bad_frame) (lit ''data: '')"
  by (simp add: bad_frame_def lit_def startsWith_def)

lemma not_json_not_done: "lit ''not-json'' \<noteq> lit ''[DONE]''"
  by (simp add: lit_def)

lemma sample_parse_not_json: "sample_parse (lit ''not-json'') = None"
  by (simp add: sample_parse_def lit_def)

section \<open>The final flush, line by line\<close>

lemma split_append: "split (a @ c # b) c = split a c @ split b c"
proof (induction a)
  case Nil
  then show ?case by simp
next
  case (Cons x a)
  obtain p ps where p: "split a c = p # ps"
    using split_not_Nil [of a c] by (cases "split a c") auto
  with Cons show ?case by simp
qed

lemma final_flush_append:
  "final_flush parse (a @ LF # b) = final_flush parse a @ final_flush parse b"
  by (simp add: final_flush_eq split_append)

lemma final_flush_line:
  "LF \<notin> set l \<Longrightarrow> final_flush parse l = flush_line parse l"
  by (simp add: final_flush_eq split_no_sep)

lemma flush_line_scan:
  assumes "LF \<notin> set l"
  shows "flush_line parse l = emitted (scan parse (l @ [LF]))"
  using scan_line [OF assms, of parse "[]"]
  by (cases "classify parse (strip_cr l)") (simp_all add: flush_line_classify scan_no_LF)

lemma flush_line_unparsed:
  "parse (trim (drop 6 (strip_cr l))) = None \<Longrightarrow> flush_line parse l = []"
  by (simp add: flush_line_classify classify_def try_payload_def Let_def)

lemma classify_lo_head: "classify sample_parse (lit lo_head) = Unparsed"
  by (simp add: classify_def lo_head_def Let_def lit_def startsWith_def trim_def is_ws_def
      sample_parse_def try_payload_def)

lemma strip_cr_lo_head: "strip_cr (lit lo_head) = lit lo_head"
  by (simp add: strip_cr_def endsWith_def lit_def CR_def lo_head_def)



lemma final_flush_unparsed_line:
  assumes "LF \<notin> set l" "classify parse (strip_cr l) = Unparsed"
  shows "final_flush parse (strip_cr l @ LF # rest) = final_flush parse rest"
proof -
  have "LF \<notin> set (strip_cr l)" using assms(1) set_strip_cr by blast
  then have "final_flush parse (strip_cr l) = flush_line parse (strip_cr l)"
    by (rule final_flush_line)
  also have "\<dots> = []" using assms(2) by (simp add: flush_line_classify classify_strip_cr)
  finally show ?thesis by (simp add: final_flush_append)
qed

section \<open>After the sentinel\<close>


section \<open>The claims about the scan loop\<close>

text \<open>
  C4.  Whenever the scan loop comes to a terminated line that carries the data prefix, is
  not the sentinel and whose payload \<open>JSON.parse\<close> rejects (the text before it, \<open>pre\<close>,
  being made of lines the loop takes off the buffer, with the deltas \<open>ds\<close>), the line is
  put back at the front of the buffer, without its carriage return and followed by the
  terminator, before the text that came after it; the scan stops there with no delta for
  the line; the read loop goes on to the next read with that buffer; and streamChat
  reports no error: for a source that delivers such a text, in whatever chunks, and then
  ends, the calls are the deltas \<open>ds\<close>, the deltas of the final flush of what followed the
  line, and the completion callback.
\<close>

theorem split_frame_is_put_back:
  assumes "scan parse pre = \<lparr>emitted = ds, textBuffer = [], streamDone = False\<rparr>"
    and "LF \<notin> set l"
    and "startsWith (strip_cr l) (lit ''data: '')"
    and "trim (drop 6 (strip_cr l)) \<noteq> lit ''[DONE]''"
    and "parse (trim (drop 6 (strip_cr l))) = None"
  shows "scan parse (pre @ l @ LF # rest) =
           \<lparr>emitted = ds, textBuffer = strip_cr l @ LF # rest, streamDone = False\<rparr>
    \<and> (decode d v = (d', t) \<and> buf @ t = pre @ l @ LF # rest \<longrightarrow>
         read_loop parse d buf (Chunk v # later) =
           (let r = read_loop parse d' (strip_cr l @ LF # rest) later
            in r\<lparr>delivered := ds @ delivered r\<rparr>))
    \<and> (snd (decode new_TextDecoder (concat cs)) = pre @ l @ LF # rest \<longrightarrow>
         delivered (read_loop parse new_TextDecoder [] (map Chunk cs)) = ds
         \<and> exit (read_loop parse new_TextDecoder [] (map Chunk cs)) = Exhausted
         \<and> calls (streamChat parse (ok_response (map Chunk cs))) =
             map OnDelta ds @ map OnDelta (final_flush parse rest) @ [OnDone])"
proof -
  have c: "classify parse (strip_cr l) = Unparsed"
    using assms(3-5) by (rule classify_unparsed)
  have "scan parse (pre @ l @ LF # rest) =
      (scan parse (l @ LF # rest))\<lparr>emitted := emitted (scan parse pre) @ emitted (scan parse (l @ LF # rest))\<rparr>"
    using assms(1) by (intro scan_through) simp_all
  then have s: "scan parse (pre @ l @ LF # rest) =
           \<lparr>emitted = ds, textBuffer = strip_cr l @ LF # rest, streamDone = False\<rparr>"
    using assms(1) by (simp add: scan_line [OF assms(2)] c)
  have r: "read_loop parse d buf (Chunk v # later) =
           (let r = read_loop parse d' (strip_cr l @ LF # rest) later
            in r\<lparr>delivered := ds @ delivered r\<rparr>)"
    if "decode d v = (d', t)" "buf @ t = pre @ l @ LF # rest"
    using that by (simp add: read_loop.simps Let_def s)
  have a: "delivered (read_loop parse new_TextDecoder [] (map Chunk cs)) = ds
         \<and> exit (read_loop parse new_TextDecoder [] (map Chunk cs)) = Exhausted
         \<and> calls (streamChat parse (ok_response (map Chunk cs))) =
             map OnDelta ds @ map OnDelta (final_flush parse rest) @ [OnDone]"
    if t: "snd (decode new_TextDecoder (concat cs)) = pre @ l @ LF # rest"
  proof -
    have "chunks_agree (read_loop parse new_TextDecoder [] (map Chunk cs))
        (scan parse ([] @ snd (decode new_TextDecoder (concat cs))))"
      using scan_Nil by (rule read_loop_chunks)
    then have g: "delivered (read_loop parse new_TextDecoder [] (map Chunk cs)) = ds"
      "exit (read_loop parse new_TextDecoder [] (map Chunk cs)) = Exhausted"
      "norm_cr (pending (read_loop parse new_TextDecoder [] (map Chunk cs))) =
         norm_cr (strip_cr l @ LF # rest)"
      by (simp_all add: t s chunks_agree_def)
    from g(3) have "final_flush parse (pending (read_loop parse new_TextDecoder [] (map Chunk cs))) =
        final_flush parse (strip_cr l @ LF # rest)"
      by (metis final_flush_norm_cr)
    also have "\<dots> = final_flush parse rest"
      using assms(2) c by (rule final_flush_unparsed_line)
    finally show ?thesis
      using g(1,2) by (simp add: calls_ok_response Let_def)
  qed
  from s r a show ?thesis by blast
qed

theorem split_frame_is_put_back_witness:
  "scan sample_parse (lit hel_frame @ [LF]) =
     \<lparr>emitted = [JStr (lit ''Hel'')], textBuffer = [], streamDone = False\<rparr>
   \<and> LF \<notin> set (lit lo_head)
   \<and> startsWith (strip_cr (lit lo_head)) (lit ''data: '')
   \<and> trim (drop 6 (strip_cr (lit lo_head))) \<noteq> lit ''[DONE]''
   \<and> sample_parse (trim (drop 6 (strip_cr (lit lo_head)))) = None
   \<and> snd (decode new_TextDecoder (concat [hel_frame, nl @ lo_head @ nl @ lo_frame @ nl])) =
       (lit hel_frame @ [LF]) @ lit lo_head @ LF # lit lo_frame @ [LF]
   \<and> scan sample_parse ((lit hel_frame @ [LF]) @ lit lo_head @ LF # lit lo_frame @ [LF]) =
       \<lparr>emitted = [JStr (lit ''Hel'')], textBuffer = lit lo_head @ LF # lit lo_frame @ [LF],
        streamDone = False\<rparr>
   \<and> calls (streamChat sample_parse
        (ok_response (map Chunk [hel_frame, nl @ lo_head @ nl @ lo_frame @ nl]))) =
       [OnDelta (JStr (lit ''Hel'')), OnDelta (JStr (lit ''lo'')), OnDone]"
proof -
  have h: "scan sample_parse (lit hel_frame @ [LF]) =
     \<lparr>emitted = [JStr (lit ''Hel'')], textBuffer = [], streamDone = False\<rparr>"
    "LF \<notin> set (lit lo_head)"
    "startsWith (strip_cr (lit lo_head)) (lit ''data: '')"
    "trim (drop 6 (strip_cr (lit lo_head))) \<noteq> lit ''[DONE]''"
    "sample_parse (trim (drop 6 (strip_cr (lit lo_head)))) = None"
    by (simp_all add: scan_line frame_facts strip_cr_lo_head)
      (simp_all add: lo_head_def lit_def startsWith_def trim_def is_ws_def sample_parse_def)
  have t: "snd (decode new_TextDecoder (concat [hel_frame, nl @ lo_head @ nl @ lo_frame @ nl])) =
       (lit hel_frame @ [LF]) @ lit lo_head @ LF # lit lo_frame @ [LF]"
    using decode_ascii [OF new_TextDecoder_idle,
        of "concat [hel_frame, nl @ lo_head @ nl @ lo_frame @ nl]"]
    by (simp add: frames_ascii lit_append lit_nl)
  have f: "final_flush sample_parse (lit lo_frame @ [LF]) = [JStr (lit ''lo'')]"
    by (simp add: frame_facts)
  from split_frame_is_put_back [where pre = "lit hel_frame @ [LF]" and l = "lit lo_head"
      and parse = sample_parse and rest = "lit lo_frame @ [LF]" and ds = "[JStr (lit ''Hel'')]"
      and cs = "[hel_frame, nl @ lo_head @ nl @ lo_frame @ nl]", OF h] h t f
  show ?thesis by (simp add: strip_cr_lo_head)
qed




text \<open>
  C10.  In the final flush a line whose payload is the sentinel is passed over and the
  lines after it are still processed: the flush of a buffer is the flush of what comes
  before the sentinel line followed by the flush of what comes after it, and these
  deltas precede the call of the completion callback.
\<close>

theorem flush_passes_over_sentinel:
  assumes "pre = [] \<or> last pre = LF"
    and "LF \<notin> set l"
    and "startsWith (strip_cr l) (lit ''data: '')"
    and "trim (drop 6 (strip_cr l)) = lit ''[DONE]''"
    and "exit (read_loop parse new_TextDecoder [] src) \<noteq> ReadFailed"
    and "pending (read_loop parse new_TextDecoder [] src) = pre @ l @ LF # post"
  shows "final_flush parse (pre @ l @ LF # post) = final_flush parse pre @ final_flush parse post
    \<and> calls (streamChat parse (ok_response src)) =
        map OnDelta (delivered (read_loop parse new_TextDecoder [] src))
        @ map OnDelta (final_flush parse pre) @ map OnDelta (final_flush parse post) @ [OnDone]"
proof -
  have l: "flush_line parse l = []"
    using assms(3,4) by (simp add: flush_line_classify classify_sentinel)
  have line: "final_flush parse (l @ LF # post) = final_flush parse post"
    using assms(2) l by (simp add: final_flush_append final_flush_line)
  have f: "final_flush parse (pre @ l @ LF # post) = final_flush parse pre @ final_flush parse post"
  proof (cases "pre = []")
    case True
    then show ?thesis by (simp add: line final_flush_Nil)
  next
    case False
    with assms(1) obtain pre' where pre: "pre = pre' @ [LF]"
      by (metis append_butlast_last_id)
    have "final_flush parse pre = final_flush parse pre'"
      using final_flush_append [of parse pre' "[]"] by (simp add: pre final_flush_Nil)
    moreover have "final_flush parse (pre @ l @ LF # post) =
        final_flush parse pre' @ final_flush parse (l @ LF # post)"
      using final_flush_append [of parse pre' "l @ LF # post"] by (simp add: pre)
    ultimately show ?thesis by (simp add: line)
  qed
  with assms(5,6) show ?thesis
    by (simp add: calls_ok_response Let_def)
qed

theorem flush_passes_over_sentinel_witness:
  "(lit bad_frame @ [LF] = [] \<or> last (lit bad_frame @ [LF]) = LF)
   \<and> LF \<notin> set (lit done_frame)
   \<and> startsWith (strip_cr (lit done_frame)) (lit ''data: '')
   \<and> trim (drop 6 (strip_cr (lit done_frame))) = lit ''[DONE]''
   \<and> exit (read_loop sample_parse new_TextDecoder []
        [Chunk (bad_frame @ nl @ done_frame @ nl @ lo_frame @ nl)]) \<noteq> ReadFailed
   \<and> pending (read_loop sample_parse new_TextDecoder []
        [Chunk (bad_frame @ nl @ done_frame @ nl @ lo_frame @ nl)]) =
       (lit bad_frame @ [LF]) @ lit done_frame @ LF # lit lo_frame @ [LF]
   \<and> final_flush sample_parse (lit bad_frame @ [LF]) = []
   \<and> final_flush sample_parse (lit lo_frame @ [LF]) = [JStr (lit ''lo'')]
   \<and> calls (streamChat sample_parse
        (ok_response [Chunk (bad_frame @ nl @ done_frame @ nl @ lo_frame @ nl)])) =
       [OnDelta (JStr (lit ''lo'')), OnDone]"
proof -
  have h: "lit bad_frame @ [LF] = [] \<or> last (lit bad_frame @ [LF]) = LF"
    "LF \<notin> set (lit done_frame)" "startsWith (strip_cr (lit done_frame)) (lit ''data: '')"
    "trim (drop 6 (strip_cr (lit done_frame))) = lit ''[DONE]''"
    by (simp_all add: frames_no_LF frames_strip_cr)
      (simp_all add: done_frame_def lit_def startsWith_def trim_def is_ws_def)
  have r: "read_loop sample_parse new_TextDecoder []
        [Chunk (bad_frame @ nl @ done_frame @ nl @ lo_frame @ nl)] =
      \<lparr>delivered = [], pending = (lit bad_frame @ [LF]) @ lit done_frame @ LF # lit lo_frame @ [LF],
       exit = Exhausted, unread = []\<rparr>"
    by (simp add: read_loop_ascii new_TextDecoder_idle scan_line frame_facts)
  then have e: "exit (read_loop sample_parse new_TextDecoder []
        [Chunk (bad_frame @ nl @ done_frame @ nl @ lo_frame @ nl)]) \<noteq> ReadFailed"
    and p: "pending (read_loop sample_parse new_TextDecoder []
        [Chunk (bad_frame @ nl @ done_frame @ nl @ lo_frame @ nl)]) =
       (lit bad_frame @ [LF]) @ lit done_frame @ LF # lit lo_frame @ [LF]"
    by simp_all
  have f: "final_flush sample_parse (lit bad_frame @ [LF]) = []"
    "final_flush sample_parse (lit lo_frame @ [LF]) = [JStr (lit ''lo'')]"
    by (simp_all add: frame_facts)
  from flush_passes_over_sentinel [where pre = "lit bad_frame @ [LF]" and l = "lit done_frame"
      and parse = sample_parse and post = "lit lo_frame @ [LF]"
      and src = "[Chunk (bad_frame @ nl @ done_frame @ nl @ lo_frame @ nl)]", OF h e p] h e p f
  show ?thesis unfolding r by simp
qed

lemma spec_final_flush_filter:
  "concat (map (flush_line parse) raws) =
     spec_final_flush parse (filter (\<lambda>raw. classify parse (strip_cr raw) \<noteq> Sentinel) raws)"
  by (induction raws) (simp_all add: flush_line_classify split: line_class.splits)

text \<open>
  C5, as amended.  When the source is exhausted without the scan loop having met the
  sentinel, the buffer is cut at the line terminators and every piece is handled by the
  comment, blank, prefix and parse rules of the scan loop: for a piece, the flush emits what
  the scan loop emits for that piece as a terminated line.  A piece whose payload
  \<open>JSON.parse\<close> rejects yields nothing, no error is reported and the completion callback is
  called after the deltas of the flush; so the line \<open>data: not-json\<close> followed by the end of
  the source gives completion alone.  The sentinel rule is not that of the scan loop: a
  piece whose payload is the sentinel is passed over and the pieces after it are still
  processed.  The flush is the batch processing that stops at the sentinel, applied to the
  pieces that are no sentinel lines; the two agree when there is no sentinel line.
\<close>

theorem final_flush_on_exhaustion:
  "(exit (read_loop parse new_TextDecoder [] src) = Exhausted \<longrightarrow>
      calls (streamChat parse (ok_response src)) =
        map OnDelta (delivered (read_loop parse new_TextDecoder [] src))
        @ map OnDelta (concat (map (flush_line parse)
            (split (pending (read_loop parse new_TextDecoder [] src)) LF)))
        @ [OnDone])
   \<and> (LF \<notin> set l \<longrightarrow> flush_line parse l = emitted (scan parse (l @ [LF])))
   \<and> (parse (trim (drop 6 (strip_cr l))) = None \<longrightarrow> flush_line parse l = [])
   \<and> final_flush parse buf =
       spec_final_flush parse
         (filter (\<lambda>raw. classify parse (strip_cr raw) \<noteq> Sentinel) (split buf LF))
   \<and> ((\<forall>raw \<in> set (split buf LF). classify parse (strip_cr raw) \<noteq> Sentinel) \<longrightarrow>
        final_flush parse buf = spec_final_flush parse (split buf LF))
   \<and> (parse (lit ''not-json'') = None \<longrightarrow>
        calls (streamChat parse (ok_response [Chunk (bad_frame @ nl)])) = [OnDone])"
proof -
  have a: "calls (streamChat parse (ok_response src)) =
        map OnDelta (delivered (read_loop parse new_TextDecoder [] src))
        @ map OnDelta (concat (map (flush_line parse)
            (split (pending (read_loop parse new_TextDecoder [] src)) LF)))
        @ [OnDone]"
    if "exit (read_loop parse new_TextDecoder [] src) = Exhausted"
    using that by (simp add: calls_ok_response Let_def final_flush_eq)
  have f: "final_flush parse buf =
       spec_final_flush parse
         (filter (\<lambda>raw. classify parse (strip_cr raw) \<noteq> Sentinel) (split buf LF))"
    unfolding final_flush_eq by (rule spec_final_flush_filter)
  have g: "final_flush parse buf = spec_final_flush parse (split buf LF)"
    if "\<forall>raw \<in> set (split buf LF). classify parse (strip_cr raw) \<noteq> Sentinel"
  proof -
    from that have "filter (\<lambda>raw. classify parse (strip_cr raw) \<noteq> Sentinel) (split buf LF) =
        split buf LF"
      by (simp add: filter_id_conv)
    with f show ?thesis by simp
  qed
  have d: "calls (streamChat parse (ok_response [Chunk (bad_frame @ nl)])) = [OnDone]"
    if "parse (lit ''not-json'') = None"
  proof -
    have c: "classify parse (lit bad_frame) = Unparsed"
      using that by (simp add: classify_unparsed bad_prefix bad_payload not_json_not_done)
    show ?thesis
      by (simp add: calls_ascii scan_line c frames_ascii frames_no_LF frames_strip_cr
          classify_strip_cr classify_Nil strip_cr_Nil lit_append lit_nl scan_no_LF
          final_flush_eq split_line split_no_sep flush_line_classify Let_def)
  qed
  from a d f g show ?thesis
    using flush_line_scan [of l parse] flush_line_unparsed [of parse l] by blast
qed

theorem final_flush_on_exhaustion_witness:
  "exit (read_loop sample_parse new_TextDecoder [] [Chunk (hel_frame @ nl @ bad_frame @ nl @ lo_frame)])
     = Exhausted
   \<and> calls (streamChat sample_parse (ok_response [Chunk (hel_frame @ nl @ bad_frame @ nl @ lo_frame)])) =
       [OnDelta (JStr (lit ''Hel'')), OnDelta (JStr (lit ''lo'')), OnDone]
   \<and> LF \<notin> set (lit bad_frame)
   \<and> flush_line sample_parse (lit bad_frame) = emitted (scan sample_parse (lit bad_frame @ [LF]))
   \<and> sample_parse (trim (drop 6 (strip_cr (lit bad_frame)))) = None
   \<and> flush_line sample_parse (lit bad_frame) = []
   \<and> list_all (\<lambda>raw. classify sample_parse (strip_cr raw) \<noteq> Sentinel)
        (split (lit bad_frame @ LF # lit lo_frame) LF)
   \<and> spec_final_flush sample_parse (split (lit bad_frame @ LF # lit lo_frame) LF) =
       [JStr (lit ''lo'')]
   \<and> final_flush sample_parse (lit bad_frame @ LF # lit lo_frame) = [JStr (lit ''lo'')]
   \<and> sample_parse (lit ''not-json'') = None
   \<and> calls (streamChat sample_parse (ok_response [Chunk (bad_frame @ nl)])) = [OnDone]"
proof -
  have r: "read_loop sample_parse new_TextDecoder [] [Chunk (hel_frame @ nl @ bad_frame @ nl @ lo_frame)] =
      \<lparr>delivered = [JStr (lit ''Hel'')], pending = lit bad_frame @ LF # lit lo_frame,
       exit = Exhausted, unread = []\<rparr>"
    by (simp add: read_loop_ascii new_TextDecoder_idle scan_line frame_facts)
  then have e: "exit (read_loop sample_parse new_TextDecoder []
      [Chunk (hel_frame @ nl @ bad_frame @ nl @ lo_frame)]) = Exhausted"
    by simp
  have h: "LF \<notin> set (lit bad_frame)" "sample_parse (trim (drop 6 (strip_cr (lit bad_frame)))) = None"
    "sample_parse (lit ''not-json'') = None"
    by (simp_all add: frames_no_LF frames_strip_cr bad_payload sample_parse_not_json)
  have s: "split (lit bad_frame @ LF # lit lo_frame) LF = [lit bad_frame, lit lo_frame]"
    by (simp add: frame_facts)
  have n: "list_all (\<lambda>raw. classify sample_parse (strip_cr raw) \<noteq> Sentinel)
        (split (lit bad_frame @ LF # lit lo_frame) LF)"
    "spec_final_flush sample_parse (split (lit bad_frame @ LF # lit lo_frame) LF) =
       [JStr (lit ''lo'')]"
    unfolding s by (simp_all add: frame_facts)
  from final_flush_on_exhaustion [where parse = sample_parse and l = "lit bad_frame"
      and src = "[Chunk (hel_frame @ nl @ bad_frame @ nl @ lo_frame)]"
      and buf = "lit bad_frame @ LF # lit lo_frame"] e h n
  show ?thesis unfolding r s by (simp add: frame_facts)
qed

theorem final_flush_counterexample:
  "exit (read_loop sample_parse new_TextDecoder []
      [Chunk (lo_head @ nl @ done_frame @ nl @ hel_frame @ nl)]) = Exhausted
   \<and> pending (read_loop sample_parse new_TextDecoder []
      [Chunk (lo_head @ nl @ done_frame @ nl @ hel_frame @ nl)]) =
       lit lo_head @ LF # lit done_frame @ LF # lit hel_frame @ [LF]
   \<and> spec_final_flush sample_parse
       (split (lit lo_head @ LF # lit done_frame @ LF # lit hel_frame @ [LF]) LF) = []
   \<and> calls (streamChat sample_parse
       (ok_response [Chunk (lo_head @ nl @ done_frame @ nl @ hel_frame @ nl)])) =
       [OnDelta (JStr (lit ''Hel'')), OnDone]"
  by (simp add: calls_ascii read_loop_ascii new_TextDecoder_idle scan_line frame_facts
      classify_lo_head strip_cr_lo_head)

section \<open>The terminal callbacks\<close>


lemma calls_shape:
  "\<exists>ds t. calls (streamChat parse f) = map OnDelta ds @ [t] \<and> terminal t"
proof (cases f)
  case Rejected
  then show ?thesis by (auto simp: streamChat_def intro: exI [of _ "[]"])
next
  case (Resolved resp)
  show ?thesis
  proof (cases "ok resp")
    case False
    have "\<exists>m. rejection resp = [OnError m]"
      by (simp add: rejection_def Let_def)
    then obtain m where "rejection resp = [OnError m]" ..
    with False Resolved have "calls (streamChat parse f) = map OnDelta [] @ [OnError m]"
      by (simp add: streamChat_def)
    then show ?thesis by (metis terminal.simps(3))
  next
    case True
    show ?thesis
    proof (cases "body resp")
      case None
      with True Resolved have "calls (streamChat parse f) =
          map OnDelta [] @ [OnError (JStr (lit ''Unable to get response stream''))]"
        by (simp add: streamChat_def)
      then show ?thesis by (metis terminal.simps(3))
    next
      case (Some src)
      define r where "r = read_loop parse new_TextDecoder [] src"
      show ?thesis
      proof (cases "exit r = ReadFailed")
        case True
        with \<open>ok resp\<close> Resolved Some have "calls (streamChat parse f) =
            map OnDelta (delivered r) @ [OnError network_failure]"
          by (simp add: streamChat_def r_def Let_def)
        then show ?thesis by (metis terminal.simps(3))
      next
        case False
        with \<open>ok resp\<close> Resolved Some have "calls (streamChat parse f) =
            map OnDelta (delivered r @ final_flush parse (pending r)) @ [OnDone]"
          by (simp add: streamChat_def r_def Let_def)
        then show ?thesis by (metis terminal.simps(2))
      qed
    qed
  qed
qed

declare scan_cb.simps [simp del]
declare read_loop_cb.simps [simp del]




lemma scan_cb_no_LF:
  "LF \<notin> set buf \<Longrightarrow>
   scan_cb throws parse made buf = \<lparr>emitted = [], textBuffer = buf, streamDone = False\<rparr>"
  by (subst scan_cb.simps) (simp add: indexOf_None [THEN iffD2])








section \<open>A read that fails\<close>

lemma read_loop_then_error:
  "exit (read_loop parse d buf src) = Exhausted \<Longrightarrow>
   read_loop parse d buf (src @ ReadError # later) =
     (read_loop parse d buf src)\<lparr>exit := ReadFailed, unread := later\<rparr>"
proof (induction src arbitrary: d buf)
  case Nil
  then show ?case by (simp add: read_loop.simps)
next
  case (Cons x src)
  show ?case
  proof (cases x)
    case ReadError
    with Cons.prems show ?thesis by (simp add: read_loop.simps)
  next
    case (Chunk v)
    obtain d' t where dec: "decode d v = (d', t)" by (cases "decode d v") auto
    show ?thesis
    proof (cases "streamDone (scan parse (buf @ t))")
      case True
      with Cons.prems show ?thesis by (simp add: Chunk read_loop.simps dec Let_def)
    next
      case False
      with Cons.prems have "exit (read_loop parse d' (textBuffer (scan parse (buf @ t))) src) = Exhausted"
        by (simp add: Chunk read_loop.simps dec Let_def)
      from Cons.IH [OF this] False show ?thesis
        by (simp add: Chunk read_loop.simps dec Let_def)
    qed
  qed
qed

text \<open>
  C6.  When the reads before the failing one have not made the loop see the sentinel,
  the failing read ends the session with the deltas emitted so far and one call of the
  error callback: no completion, no further delta and no final flush, whatever is left
  in the buffer.
\<close>

theorem read_failure_reports_error:
  assumes "exit (read_loop parse new_TextDecoder [] src) = Exhausted"
  shows "calls (streamChat parse (ok_response (src @ ReadError # later))) =
           map OnDelta (delivered (read_loop parse new_TextDecoder [] src))
           @ [OnError network_failure]
    \<and> pending (read_loop parse new_TextDecoder [] (src @ ReadError # later)) =
        pending (read_loop parse new_TextDecoder [] src)"
  using assms by (simp add: calls_ok_response read_loop_then_error Let_def)

theorem read_failure_reports_error_witness:
  "exit (read_loop sample_parse new_TextDecoder [] [Chunk (hel_frame @ nl), Chunk lo_frame]) = Exhausted
   \<and> calls (streamChat sample_parse
        (ok_response ([Chunk (hel_frame @ nl), Chunk lo_frame] @ ReadError # []))) =
       [OnDelta (JStr (lit ''Hel'')), OnError network_failure]
   \<and> pending (read_loop sample_parse new_TextDecoder []
        ([Chunk (hel_frame @ nl), Chunk lo_frame] @ ReadError # [])) = lit lo_frame
   \<and> final_flush sample_parse (lit lo_frame) = [JStr (lit ''lo'')]"
proof -
  have r: "read_loop sample_parse new_TextDecoder [] [Chunk (hel_frame @ nl), Chunk lo_frame] =
      \<lparr>delivered = [JStr (lit ''Hel'')], pending = lit lo_frame, exit = Exhausted, unread = []\<rparr>"
    by (simp add: read_loop_ascii new_TextDecoder_idle scan_line frame_facts)
  then have e: "exit (read_loop sample_parse new_TextDecoder []
      [Chunk (hel_frame @ nl), Chunk lo_frame]) = Exhausted"
    by simp
  have f: "final_flush sample_parse (lit lo_frame) = [JStr (lit ''lo'')]"
    by (simp add: frame_facts)
  from read_failure_reports_error [where parse = sample_parse
      and src = "[Chunk (hel_frame @ nl), Chunk lo_frame]" and later = "[]", OF e] e f
  show ?thesis unfolding r by simp
qed

section \<open>A response that is not ok\<close>

lemma rejection_reason:
  "rejection resp =
     [OnError (case json resp of
         None \<Rightarrow> default_reason (status resp)
       | Some v \<Rightarrow>
           if nullish v then network_failure
           else if truthy (property v (lit ''error'')) then property v (lit ''error'')
           else default_reason (status resp))]"
  by (simp add: rejection_def default_reason_def or_else_def Let_def split: option.splits)

text \<open>
  C7, as amended.  For a response whose status is not a success, streamChat calls the error
  callback and nothing else; the calls depend neither on the body stream nor on
  \<open>JSON.parse\<close>: the read loop is not entered, no delta is emitted and the completion
  callback is not called.  The reason is the network failure message when the response's
  JSON body is null; otherwise the \<open>error\<close> member of that body when it is truthy;
  otherwise it is derived from the status (the rate message for 429, the quota message for
  402, the connection message for any other status).  The error callback is called once;
  if that call throws, and the JSON body was not null, the \<open>catch\<close> clause calls it once
  more, with the network failure message.
\<close>

theorem not_ok_reports_error:
  assumes "\<not> ok resp"
  shows "calls (streamChat parse (Resolved resp)) =
      [OnError (case json resp of
          None \<Rightarrow> default_reason (status resp)
        | Some v \<Rightarrow>
            if nullish v then network_failure
            else if truthy (property v (lit ''error'')) then property v (lit ''error'')
            else default_reason (status resp))]
    \<and> calls (streamChat parse' (Resolved (resp\<lparr>body := b\<rparr>))) =
        calls (streamChat parse (Resolved resp))
    \<and> invoked (streamChat_cb throws parse (Resolved resp)) =
        calls (streamChat parse (Resolved resp))
        @ (if (case json resp of None \<Rightarrow> True | Some v \<Rightarrow> \<not> nullish v)
              \<and> throws [] (hd (calls (streamChat parse (Resolved resp))))
           then [OnError network_failure] else [])"
proof -
  have c: "calls (streamChat parse (Resolved resp)) = rejection resp"
    using assms by (simp add: streamChat_def)
  have "\<not> ok (resp\<lparr>body := b\<rparr>)" using assms by (simp add: ok_def)
  then have b: "calls (streamChat parse' (Resolved (resp\<lparr>body := b\<rparr>))) = rejection resp"
    by (simp add: streamChat_def rejection_def Let_def)
  have i: "invoked (streamChat_cb throws parse (Resolved resp)) =
      rejection resp
      @ (if (case json resp of None \<Rightarrow> True | Some v \<Rightarrow> \<not> nullish v)
            \<and> throws [] (hd (rejection resp))
         then [OnError network_failure] else [])"
    using assms
    by (simp add: streamChat_cb_def try_block_def rejection_def Let_def split: option.splits)
  show ?thesis
    unfolding c b i by (simp add: rejection_reason)
qed

theorem not_ok_reports_error_witness:
  "\<not> ok \<lparr>status = 429, json = None, body = Some [Chunk (lo_frame @ nl)]\<rparr>
   \<and> calls (streamChat sample_parse
        (Resolved \<lparr>status = 429, json = None, body = Some [Chunk (lo_frame @ nl)]\<rparr>)) =
       [OnError (JStr (lit ''Request rate too high, please try again later''))]
   \<and> \<not> ok \<lparr>status = 402, json = Some JNull, body = None\<rparr>
   \<and> calls (streamChat sample_parse
        (Resolved \<lparr>status = 402, json = Some JNull, body = None\<rparr>)) =
       [OnError network_failure]
   \<and> \<not> ok \<lparr>status = 500, json = Some (JObj []), body = None\<rparr>
   \<and> invoked (streamChat_cb (\<lambda>h c. c = OnError (JStr (lit ''Connection failed, please retry'')))
        sample_parse (Resolved \<lparr>status = 500, json = Some (JObj []), body = None\<rparr>)) =
       [OnError (JStr (lit ''Connection failed, please retry'')), OnError network_failure]"
proof -
  have h: "\<not> ok \<lparr>status = 429, json = None, body = Some [Chunk (lo_frame @ nl)]\<rparr>"
    "\<not> ok \<lparr>status = 402, json = Some JNull, body = None\<rparr>"
    "\<not> ok \<lparr>status = 500, json = Some (JObj []), body = None\<rparr>"
    by (simp_all add: ok_def)
  from not_ok_reports_error [OF h(1), of sample_parse]
    not_ok_reports_error [OF h(2), of sample_parse]
    not_ok_reports_error [OF h(3), of sample_parse _ _
      "\<lambda>h c. c = OnError (JStr (lit ''Connection failed, please retry''))"] h
  show ?thesis
    by (simp add: default_reason_def)
qed

theorem not_ok_counterexample:
  "calls (streamChat sample_parse
      (Resolved \<lparr>status = 429, json = Some (JObj [(lit ''error'', JStr (lit ''Unknown error''))]),
         body = None\<rparr>)) =
     [OnError (JStr (lit ''Unknown error''))]"
  by (simp add: streamChat_def ok_def rejection_def or_else_def Let_def lit_def)

section \<open>The pending buffer\<close>











end
